theory Spec2Isabelle
  imports Main "HOL-Library.AList" "HOL-Library.Multiset" "HOL-Library.Sublist"
begin

section \<open>Data model of react-slots.tsx\<close>

text \<open>
  The only exception the code of \<^verbatim>\<open>getSlots\<close> can raise is the runtime's TypeError
  (reading a property of \<^verbatim>\<open>null\<close> or \<^verbatim>\<open>undefined\<close>).
\<close>

datatype error = TypeError

text \<open>
  The \<^verbatim>\<open>type\<close> of a React element: a string for a host element (\<^verbatim>\<open>'div'\<close>), a
  registered symbol (\<^verbatim>\<open>Symbol.for('react.fragment')\<close>; registered symbols are equal when
  their keys are), or a component, compared by reference (the number stands for the
  identity of the function).
\<close>

datatype etype = TyString string | TySymbol string | TyComponent nat

text \<open>
  A \<^verbatim>\<open>React.ReactNode\<close>: the primitives, an array of nodes, or an element. An element
  carries its type, an identity (standing for its key and its other props) and
  \<^verbatim>\<open>props.children\<close> (\<open>Undefined\<close> when it has none, a single node, or an array).
  The code only tests a number for truthiness, so a number is given by an integer value
  or is \<open>NaN\<close>. Portals and iterables other than arrays are left out.
\<close>

datatype node =
    Undefined
  | Null
  | Bool bool
  | Num int
  | NaN
  | Str string
  | Arr "node list"
  | Element etype nat node

text \<open>
  Keys of the \<^verbatim>\<open>WeakMap\<close>: references to objects. A component is a function, a
  namespaced schema value is a plain object; the two are never the same reference.
\<close>

datatype ref = FnRef nat | ObjRef nat

text \<open>
  A value of the \<^verbatim>\<open>SlotDictionary\<close>: a component, a one-element tuple holding a
  component, or an object (with its own identity) mapping labels to components.
  The schema is the list of its entries in \<^verbatim>\<open>for ... in\<close> order.
\<close>

datatype slot_def = Component nat | Tuple nat | Mapping nat "(string \<times> nat) list"

type_synonym schema = "(string \<times> slot_def) list"

type_synonym constructor_map = "ref \<rightharpoonup> string"

text \<open>
  The value \<^verbatim>\<open>getSlots\<close> returns: \<^verbatim>\<open>{ children, slots }\<close>. A slot holds a node; the
  repeatable slots hold an array (\<open>Arr\<close>). The slots object is the list of its
  properties, each key once; \<^verbatim>\<open>p.slots[key] = v\<close> is \<open>AList.update key v\<close>, which
  replaces the value of a key that is present and adds the key otherwise. No property
  below depends on the order of the list.
\<close>

record result =
  children :: "node list"
  slots :: "(string \<times> node) list"

section \<open>getSlots\<close>

definition ReactFragmentSymbol :: etype where
  "ReactFragmentSymbol = TySymbol ''react.fragment''"

text \<open>JavaScript truthiness, as \<^verbatim>\<open>!children\<close> and \<^verbatim>\<open>.filter((c) => c)\<close> use it.\<close>

fun truthy :: "node \<Rightarrow> bool" where
  "truthy Undefined = False"
| "truthy Null = False"
| "truthy (Bool b) = b"
| "truthy (Num n) = (n \<noteq> 0)"
| "truthy NaN = False"
| "truthy (Str s) = (s \<noteq> [])"
| "truthy (Arr xs) = True"
| "truthy (Element t i c) = True"

text \<open>
  \<^verbatim>\<open>x.type\<close>: a TypeError on \<^verbatim>\<open>null\<close> and \<^verbatim>\<open>undefined\<close>, the type of an element,
  \<^verbatim>\<open>undefined\<close> (\<open>None\<close>) on every other value.
\<close>

fun get_type :: "node \<Rightarrow> error + etype option" where
  "get_type Undefined = Inl TypeError"
| "get_type Null = Inl TypeError"
| "get_type (Element t i c) = Inr (Some t)"
| "get_type x = Inr None"

text \<open>\<^verbatim>\<open>e.props?.children ?? []\<close>, read on an element.\<close>

fun props_children :: "node \<Rightarrow> node" where
  "props_children (Element t i c) = (case c of Undefined \<Rightarrow> Arr [] | Null \<Rightarrow> Arr [] | _ \<Rightarrow> c)"
| "props_children x = Arr []"

text \<open>The callback of \<^verbatim>\<open>.flatMap\<close>.\<close>

definition flatMap_fn :: "node \<Rightarrow> error + node" where
  "flatMap_fn e =
     (case get_type e of
        Inl err \<Rightarrow> Inl err
      | Inr t \<Rightarrow> if t = Some ReactFragmentSymbol then Inr (props_children e) else Inr e)"

text \<open>\<^verbatim>\<open>flatMap\<close> inlines a returned array by one level and keeps any other value.\<close>

fun spread :: "node \<Rightarrow> node list" where
  "spread (Arr xs) = xs"
| "spread x = [x]"

fun flatMap :: "node list \<Rightarrow> error + node list" where
  "flatMap [] = Inr []"
| "flatMap (e # es) =
     (case flatMap_fn e of
        Inl err \<Rightarrow> Inl err
      | Inr v \<Rightarrow> (case flatMap es of Inl err \<Rightarrow> Inl err | Inr vs \<Rightarrow> Inr (spread v @ vs)))"

text \<open>
  The loop \<^verbatim>\<open>for (const slot in schema)\<close>: it fills the \<^verbatim>\<open>constructorMap\<close> and
  seeds \<^verbatim>\<open>sortedSlots\<close>. A tuple registers its element and seeds an empty array; any
  other value (a component or a mapping object) is registered as it is.
\<close>

fun is_tuple :: "slot_def \<Rightarrow> bool" where
  "is_tuple (Tuple c) = True"
| "is_tuple v = False"

fun schema_ref :: "slot_def \<Rightarrow> ref" where
  "schema_ref (Tuple c) = FnRef c"
| "schema_ref (Component c) = FnRef c"
| "schema_ref (Mapping obj es) = ObjRef obj"

fun schema_loop ::
  "schema \<Rightarrow> constructor_map \<times> (string \<times> node) list \<Rightarrow> constructor_map \<times> (string \<times> node) list"
where
  "schema_loop [] acc = acc"
| "schema_loop ((slot, v) # rest) (constructorMap, sortedSlots) =
     (if is_tuple v
      then schema_loop rest (constructorMap(schema_ref v \<mapsto> slot), AList.update slot (Arr []) sortedSlots)
      else schema_loop rest (constructorMap(schema_ref v \<mapsto> slot), sortedSlots))"

text \<open>
  \<^verbatim>\<open>typeof childType !== 'string' && constructorMap.has(childType)\<close> followed by
  \<^verbatim>\<open>constructorMap.get(childType)\<close>: only a component reference can be a key that
  was set; a string is excluded by the test, \<^verbatim>\<open>undefined\<close> and a registered symbol are no
  keys of a WeakMap.
\<close>

fun constructorMap_get :: "constructor_map \<Rightarrow> etype option \<Rightarrow> string option" where
  "constructorMap_get constructorMap (Some (TyComponent c)) = constructorMap (FnRef c)"
| "constructorMap_get constructorMap t = None"

text \<open>\<^verbatim>\<open>Array.isArray(schema[key])\<close> and \<^verbatim>\<open>Array.isArray(p.slots[key])\<close>.\<close>

definition allowMultiple :: "schema \<Rightarrow> string \<Rightarrow> bool" where
  "allowMultiple schema key = (case map_of schema key of Some v \<Rightarrow> is_tuple v | None \<Rightarrow> False)"

text \<open>The callback of \<^verbatim>\<open>.reduce\<close>, with its four branches on a match.\<close>

definition reducer :: "constructor_map \<Rightarrow> schema \<Rightarrow> result \<Rightarrow> node \<Rightarrow> error + result" where
  "reducer constructorMap schema p cv =
     (case get_type cv of
        Inl err \<Rightarrow> Inl err
      | Inr childType \<Rightarrow>
          (case constructorMap_get constructorMap childType of
             Some key \<Rightarrow>
               if \<not> allowMultiple schema key
               then Inr (p\<lparr>slots := AList.update key cv (slots p)\<rparr>)
               else (case map_of (slots p) key of
                       None \<Rightarrow> Inr (p\<lparr>slots := AList.update key (Arr [cv]) (slots p)\<rparr>)
                     | Some (Arr xs) \<Rightarrow> Inr (p\<lparr>slots := AList.update key (Arr (xs @ [cv])) (slots p)\<rparr>)
                     | Some old \<Rightarrow> Inr (p\<lparr>slots := AList.update key (Arr [old, cv]) (slots p)\<rparr>))
           | None \<Rightarrow> Inr (p\<lparr>children := children p @ [cv]\<rparr>)))"

fun reduce :: "constructor_map \<Rightarrow> schema \<Rightarrow> node list \<Rightarrow> result \<Rightarrow> error + result" where
  "reduce constructorMap schema [] p = Inr p"
| "reduce constructorMap schema (cv # rest) p =
     (case reducer constructorMap schema p cv of
        Inl err \<Rightarrow> Inl err
      | Inr p' \<Rightarrow> reduce constructorMap schema rest p')"

text \<open>The normalisation of the \<^verbatim>\<open>children\<close> argument into \<^verbatim>\<open>_children\<close>.\<close>

definition children_array :: "node \<Rightarrow> node list" where
  "children_array ch = (if \<not> truthy ch then [] else case ch of Arr xs \<Rightarrow> xs | _ \<Rightarrow> [ch])"

definition getSlots :: "node \<Rightarrow> schema \<Rightarrow> error + result" where
  "getSlots ch schema =
     (case schema_loop schema (Map.empty, []) of
        (constructorMap, sortedSlots) \<Rightarrow>
          (case flatMap (filter truthy (children_array ch)) of
             Inl err \<Rightarrow> Inl err
           | Inr flat \<Rightarrow> reduce constructorMap schema flat \<lparr>children = [], slots = sortedSlots\<rparr>))"

section \<open>resolveChildSlot and withSlots\<close>

text \<open>
  \<^verbatim>\<open>resolveChildSlot\<close>: the element of a tuple, the value of an object with exactly one
  key, the argument itself otherwise. A component is a function, so neither test holds.
\<close>

fun resolveChildSlot :: "slot_def \<Rightarrow> slot_def" where
  "resolveChildSlot (Tuple c) = Component c"
| "resolveChildSlot (Mapping obj [(label, c)]) = Component c"
| "resolveChildSlot child = child"

text \<open>
  \<^verbatim>\<open>Object.fromEntries\<close>: an object with the entries as properties, a later entry
  replacing an earlier one of the same key.
\<close>

definition Object_fromEntries :: "(string \<times> slot_def) list \<Rightarrow> (string \<times> slot_def) list" where
  "Object_fromEntries entries = fold (\<lambda>(key, v). AList.update key v) entries []"

text \<open>
  The keys that cannot be assigned on a function such as \<^verbatim>\<open>SlotProvider\<close>: its own
  properties \<^verbatim>\<open>name\<close> and \<^verbatim>\<open>length\<close> are not writable, and \<^verbatim>\<open>arguments\<close> and
  \<^verbatim>\<open>caller\<close> are accessors of \<^verbatim>\<open>Function.prototype\<close> whose setter throws (the module is
  strict code).
\<close>

definition function_readonly_keys :: "string list" where
  "function_readonly_keys = [''name'', ''length'', ''arguments'', ''caller'']"

text \<open>
  \<^verbatim>\<open>Object.assign(SlotProvider, slots)\<close>: it sets the properties of the source on the
  target one by one, in order, and raises a TypeError at the first key that cannot be
  assigned. The target is given by the properties assigned to the provider so far.
\<close>

fun Object_assign ::
  "(string \<times> slot_def) list \<Rightarrow> (string \<times> slot_def) list \<Rightarrow> error + (string \<times> slot_def) list"
where
  "Object_assign target [] = Inr target"
| "Object_assign target ((key, v) # source) =
     (if key \<in> set function_readonly_keys then Inl TypeError
      else Object_assign (AList.update key v target) source)"

text \<open>
  \<^verbatim>\<open>withSlots\<close>: the table of the resolved entries, built with \<^verbatim>\<open>Object.fromEntries\<close> over
  \<^verbatim>\<open>Object.entries(schema)\<close> and assigned onto the provider. The wrapped component it
  returns is given by the static properties attached to the provider, or the exception
  of the assignment; what the provider renders is \<^verbatim>\<open>getSlots\<close> above. A key
  \<^verbatim>\<open>__proto__\<close>, which only a computed key can make an own property of a schema, is left
  out.
\<close>

definition withSlots :: "schema \<Rightarrow> error + (string \<times> slot_def) list" where
  "withSlots schema =
     Object_assign [] (Object_fromEntries (map (\<lambda>(key, val). (key, resolveChildSlot val)) schema))"

section \<open>Notions used to state the properties\<close>

text \<open>
  The sequence the \<^verbatim>\<open>reduce\<close> walks: the children after the falsy filter and the
  \<^verbatim>\<open>flatMap\<close>. The filter leaves only truthy values, on which \<^verbatim>\<open>e.type\<close> cannot raise
  (lemma \<open>flatMap_children_array\<close>), so the error branch is never taken.
\<close>

definition flattened :: "node \<Rightarrow> node list" where
  "flattened ch = (case flatMap (filter truthy (children_array ch)) of Inl err \<Rightarrow> [] | Inr flat \<Rightarrow> flat)"

text \<open>The \<^verbatim>\<open>constructorMap\<close> and the seeded \<^verbatim>\<open>sortedSlots\<close> after the schema loop.\<close>

definition constructorMap_of :: "schema \<Rightarrow> constructor_map" where
  "constructorMap_of schema = fst (schema_loop schema (Map.empty, []))"

definition sortedSlots_of :: "schema \<Rightarrow> (string \<times> node) list" where
  "sortedSlots_of schema = snd (schema_loop schema (Map.empty, []))"

text \<open>The slot name the reducer's test resolves for a node, \<open>None\<close> when the test fails.\<close>

definition slot_of :: "schema \<Rightarrow> node \<Rightarrow> string option" where
  "slot_of schema cv =
     (case get_type cv of
        Inl err \<Rightarrow> None
      | Inr childType \<Rightarrow> constructorMap_get (constructorMap_of schema) childType)"

definition matches :: "schema \<Rightarrow> string \<Rightarrow> node list \<Rightarrow> node list" where
  "matches schema key flat = filter (\<lambda>cv. slot_of schema cv = Some key) flat"

text \<open>\<^verbatim>\<open>cv.type === c\<close> for a component \<open>c\<close>.\<close>

definition type_is :: "nat \<Rightarrow> node \<Rightarrow> bool" where
  "type_is c cv = (get_type cv = Inr (Some (TyComponent c)))"

text \<open>
  What a slot holds once a sequence has been walked: the array of its matches when the
  slot is repeatable, else the last match, or nothing.
\<close>

definition slot_value :: "schema \<Rightarrow> string \<Rightarrow> node list \<Rightarrow> node option" where
  "slot_value schema key flat =
     (if allowMultiple schema key then Some (Arr (matches schema key flat))
      else if matches schema key flat = [] then None
      else Some (last (matches schema key flat)))"

text \<open>The nodes a slot value holds (its size is their number), and those of all slots.\<close>

fun slot_nodes :: "node \<Rightarrow> node list" where
  "slot_nodes (Arr xs) = xs"
| "slot_nodes cv = [cv]"

definition all_slot_nodes :: "(string \<times> node) list \<Rightarrow> node list" where
  "all_slot_nodes ss = concat (map (\<lambda>(key, v). slot_nodes v) ss)"

text \<open>
  The size of a slot value: the length of an array, 1 for a single value; and the sum of
  the sizes of all slots.
\<close>

fun slot_size :: "node \<Rightarrow> nat" where
  "slot_size (Arr xs) = length xs"
| "slot_size cv = 1"

definition slots_size :: "(string \<times> node) list \<Rightarrow> nat" where
  "slots_size ss = sum_list (map (\<lambda>(key, v). slot_size v) ss)"

text \<open>
  The matches that a later match overwrites: the nodes resolved to a slot that is not
  repeatable while a later node of the sequence is resolved to the same slot.
\<close>

fun overwritten :: "schema \<Rightarrow> node list \<Rightarrow> node list" where
  "overwritten schema [] = []"
| "overwritten schema (cv # rest) =
     (case slot_of schema cv of
        Some key \<Rightarrow>
          if \<not> allowMultiple schema key \<and> matches schema key rest \<noteq> []
          then cv # overwritten schema rest
          else overwritten schema rest
      | None \<Rightarrow> overwritten schema rest)"

section \<open>The pipeline of getSlots\<close>

lemma flatMap_fn_truthy: "truthy e \<Longrightarrow> \<exists>v. flatMap_fn e = Inr v"
  by (cases e) (auto simp: flatMap_fn_def)

lemma flatMap_truthy: "list_all truthy es \<Longrightarrow> \<exists>flat. flatMap es = Inr flat"
proof (induction es)
  case Nil
  show ?case by simp
next
  case (Cons e es)
  from Cons.prems obtain v where "flatMap_fn e = Inr v"
    using flatMap_fn_truthy by auto
  moreover from Cons obtain vs where "flatMap es = Inr vs" by auto
  ultimately show ?case by simp
qed


lemma flatMap_children_array: "flatMap (filter truthy (children_array ch)) = Inr (flattened ch)"
proof -
  have "list_all truthy (filter truthy (children_array ch))" by (simp add: list_all_iff)
  then obtain flat where "flatMap (filter truthy (children_array ch)) = Inr flat"
    using flatMap_truthy by blast
  then show ?thesis by (simp add: flattened_def)
qed

lemma getSlots_reduce:
  "getSlots ch schema =
     reduce (constructorMap_of schema) schema (flattened ch) \<lparr>children = [], slots = sortedSlots_of schema\<rparr>"
  by (simp add: getSlots_def constructorMap_of_def sortedSlots_of_def flatMap_children_array
      split: prod.splits)

lemma schema_loop_fst:
  "fst (schema_loop schema (cm, ss)) r =
     (case map_of (rev (map (\<lambda>(slot, v). (schema_ref v, slot)) schema)) r of
        Some key \<Rightarrow> Some key
      | None \<Rightarrow> cm r)"
proof (induction schema arbitrary: cm ss)
  case Nil
  show ?case by simp
next
  case (Cons e rest)
  obtain slot v where e: "e = (slot, v)" by (cases e)
  show ?case by (simp add: e Cons.IH map_add_def split: option.splits)
qed

lemma schema_loop_snd_map_of:
  "map_of (snd (schema_loop schema (cm, ss))) key =
     (if \<exists>v. (key, v) \<in> set schema \<and> is_tuple v then Some (Arr []) else map_of ss key)"
proof (induction schema arbitrary: cm ss)
  case Nil
  show ?case by simp
next
  case (Cons e rest)
  obtain slot v where e: "e = (slot, v)" by (cases e)
  show ?case by (auto simp: e Cons.IH update_conv')
qed

lemma schema_loop_snd_distinct:
  "distinct (map fst ss) \<Longrightarrow> distinct (map fst (snd (schema_loop schema (cm, ss))))"
proof (induction schema arbitrary: cm ss)
  case Nil
  then show ?case by simp
next
  case (Cons e rest)
  obtain slot v where e: "e = (slot, v)" by (cases e)
  show ?case using Cons.prems by (simp add: e Cons.IH distinct_update)
qed

lemma allowMultiple_iff:
  "distinct (map fst schema) \<Longrightarrow> allowMultiple schema key \<longleftrightarrow> (\<exists>v. (key, v) \<in> set schema \<and> is_tuple v)"
  by (auto simp: allowMultiple_def map_of_eq_None_iff image_iff split: option.splits
      dest: eq_key_imp_eq_value)

lemma sortedSlots_of_map_of:
  "distinct (map fst schema) \<Longrightarrow>
   map_of (sortedSlots_of schema) key = (if allowMultiple schema key then Some (Arr []) else None)"
  by (simp add: sortedSlots_of_def schema_loop_snd_map_of allowMultiple_iff)

lemma sortedSlots_of_distinct: "distinct (map fst (sortedSlots_of schema))"
  by (simp add: sortedSlots_of_def schema_loop_snd_distinct)

lemma constructorMap_of_eq:
  "constructorMap_of schema = map_of (rev (map (\<lambda>(slot, v). (schema_ref v, slot)) schema))"
  by (rule ext) (simp add: constructorMap_of_def schema_loop_fst split: option.splits)

lemma constructorMap_of_SomeD:
  "constructorMap_of schema r = Some key \<Longrightarrow> \<exists>v. (key, v) \<in> set schema \<and> schema_ref v = r"
  by (auto simp: constructorMap_of_eq dest!: map_of_SomeD)

lemma reduce_append:
  "reduce cm schema (xs @ ys) p =
     (case reduce cm schema xs p of Inl err \<Rightarrow> Inl err | Inr p' \<Rightarrow> reduce cm schema ys p')"
  by (induction xs arbitrary: p) (auto split: sum.splits)

lemma reduce_snoc_Inr:
  "reduce cm schema (xs @ [x]) p = Inr r \<longleftrightarrow>
     (\<exists>q. reduce cm schema xs p = Inr q \<and> reducer cm schema q x = Inr r)"
  by (auto simp: reduce_append split: sum.splits)

lemma matches_snoc:
  "matches schema key (xs @ [x]) =
     (if slot_of schema x = Some key then matches schema key xs @ [x] else matches schema key xs)"
  by (simp add: matches_def)

lemma reducer_unmatched:
  "reducer (constructorMap_of schema) schema q x = Inr r \<Longrightarrow> slot_of schema x = None \<Longrightarrow>
   r = q\<lparr>children := children q @ [x]\<rparr>"
  by (auto simp: reducer_def slot_of_def split: sum.splits option.splits)

lemma reducer_single:
  "reducer (constructorMap_of schema) schema q x = Inr r \<Longrightarrow> slot_of schema x = Some key \<Longrightarrow>
   \<not> allowMultiple schema key \<Longrightarrow> r = q\<lparr>slots := AList.update key x (slots q)\<rparr>"
  by (auto simp: reducer_def slot_of_def split: sum.splits option.splits)

lemma reducer_multiple:
  "reducer (constructorMap_of schema) schema q x = Inr r \<Longrightarrow> slot_of schema x = Some key \<Longrightarrow>
   allowMultiple schema key \<Longrightarrow> map_of (slots q) key = Some (Arr ms) \<Longrightarrow>
   r = q\<lparr>slots := AList.update key (Arr (ms @ [x])) (slots q)\<rparr>"
  by (auto simp: reducer_def slot_of_def split: sum.splits option.splits)

lemma reduce_invariant:
  assumes d: "distinct (map fst schema)"
  shows "reduce (constructorMap_of schema) schema xs \<lparr>children = [], slots = sortedSlots_of schema\<rparr> = Inr p \<Longrightarrow>
     children p = filter (\<lambda>cv. slot_of schema cv = None) xs \<and>
     distinct (map fst (slots p)) \<and>
     (\<forall>key. map_of (slots p) key = slot_value schema key xs)"
proof (induction xs arbitrary: p rule: rev_induct)
  case Nil
  then show ?case
    by (auto simp: sortedSlots_of_distinct sortedSlots_of_map_of [OF d] slot_value_def matches_def)
next
  case (snoc x xs)
  from snoc.prems obtain q where
    q: "reduce (constructorMap_of schema) schema xs \<lparr>children = [], slots = sortedSlots_of schema\<rparr> = Inr q"
    and step: "reducer (constructorMap_of schema) schema q x = Inr p"
    by (auto simp: reduce_snoc_Inr)
  from snoc.IH [OF q] have
    ch: "children q = filter (\<lambda>cv. slot_of schema cv = None) xs"
    and dist: "distinct (map fst (slots q))"
    and sl: "\<And>key. map_of (slots q) key = slot_value schema key xs"
    by auto
  show ?case
  proof (cases "slot_of schema x")
    case None
    with step have "p = q\<lparr>children := children q @ [x]\<rparr>" by (simp add: reducer_unmatched)
    with None ch dist sl show ?thesis by (simp add: slot_value_def matches_snoc)
  next
    case (Some k)
    show ?thesis
    proof (cases "allowMultiple schema k")
      case False
      with step Some have "p = q\<lparr>slots := AList.update k x (slots q)\<rparr>"
        by (simp add: reducer_single)
      with Some False ch dist sl show ?thesis
        by (auto simp: slot_value_def matches_snoc update_conv' distinct_update)
    next
      case True
      with sl have "map_of (slots q) k = Some (Arr (matches schema k xs))"
        by (simp add: slot_value_def)
      with step Some True have "p = q\<lparr>slots := AList.update k (Arr (matches schema k xs @ [x])) (slots q)\<rparr>"
        by (simp add: reducer_multiple)
      with Some True ch dist sl show ?thesis
        by (auto simp: slot_value_def matches_snoc update_conv' distinct_update)
    qed
  qed
qed

lemma getSlots_invariant:
  assumes "distinct (map fst schema)" and "getSlots ch schema = Inr r"
  shows "children r = filter (\<lambda>cv. slot_of schema cv = None) (flattened ch)"
    and "distinct (map fst (slots r))"
    and "map_of (slots r) key = slot_value schema key (flattened ch)"
  using reduce_invariant [OF assms(1), of "flattened ch" r] assms(2)
  by (simp_all add: getSlots_reduce)

lemma reducer_Inr_iff:
  "(\<exists>r. reducer cm schema p cv = Inr r) \<longleftrightarrow> cv \<noteq> Null \<and> cv \<noteq> Undefined"
  by (cases cv) (auto simp: reducer_def split: option.splits node.splits)

lemma reduce_Inr_iff:
  "(\<exists>r. reduce cm schema xs p = Inr r) \<longleftrightarrow> Null \<notin> set xs \<and> Undefined \<notin> set xs"
proof (induction xs arbitrary: p)
  case Nil
  show ?case by simp
next
  case (Cons x xs)
  show ?case
  proof (cases "reducer cm schema p x")
    case (Inl e)
    with reducer_Inr_iff [of cm schema p x] show ?thesis by auto
  next
    case (Inr q)
    with reducer_Inr_iff [of cm schema p x] Cons.IH [of q] show ?thesis by auto
  qed
qed

lemma getSlots_Inr_iff:
  "(\<exists>r. getSlots ch schema = Inr r) \<longleftrightarrow> Null \<notin> set (flattened ch) \<and> Undefined \<notin> set (flattened ch)"
  by (simp add: getSlots_reduce reduce_Inr_iff)

lemma slot_of_SomeD:
  "slot_of schema cv = Some key \<Longrightarrow>
   \<exists>c v. type_is c cv \<and> (key, v) \<in> set schema \<and> schema_ref v = FnRef c"
  by (cases cv; cases "get_type cv")
     (auto simp: slot_of_def type_is_def elim!: constructorMap_get.elims
        dest: constructorMap_of_SomeD constructorMap_of_SomeD [OF sym])

lemma type_is_slot_of: "type_is c cv \<Longrightarrow> slot_of schema cv = constructorMap_of schema (FnRef c)"
  by (simp add: type_is_def slot_of_def)

lemma matches_type_is:
  assumes "distinct (map fst schema)" and "(key, v) \<in> set schema" and "schema_ref v = FnRef c"
    and "constructorMap_of schema (FnRef c) = Some key"
  shows "matches schema key xs = filter (type_is c) xs"
proof -
  have "slot_of schema cv = Some key \<longleftrightarrow> type_is c cv" for cv
  proof
    assume "slot_of schema cv = Some key"
    then obtain c' v' where t: "type_is c' cv" and "(key, v') \<in> set schema" and r: "schema_ref v' = FnRef c'"
      using slot_of_SomeD by blast
    with assms(1,2) have "v' = v" by (auto dest: eq_key_imp_eq_value)
    with r assms(3) have "c' = c" by simp
    with t show "type_is c cv" by simp
  next
    assume "type_is c cv"
    with assms(4) show "slot_of schema cv = Some key" by (simp add: type_is_slot_of)
  qed
  then show ?thesis by (simp add: matches_def)
qed


lemma constructorMap_of_None:
  "\<forall>(k, w) \<in> set schema. schema_ref w \<noteq> r \<Longrightarrow> constructorMap_of schema r = None"
  by (force simp: constructorMap_of_eq map_of_eq_None_iff image_iff)

lemma type_is_Element: "type_is c cv \<Longrightarrow> \<exists>i ch. cv = Element (TyComponent c) i ch"
  by (cases cv) (auto simp: type_is_def)

lemma slot_of_slot_nodes: "slot_of schema cv = Some key \<Longrightarrow> slot_nodes cv = [cv]"
  by (auto dest!: slot_of_SomeD type_is_Element)

lemma last_matches: "matches schema key xs \<noteq> [] \<Longrightarrow> slot_of schema (last (matches schema key xs)) = Some key"
proof -
  assume "matches schema key xs \<noteq> []"
  then have "last (matches schema key xs) \<in> set (matches schema key xs)" by (rule last_in_set)
  then show ?thesis by (simp add: matches_def)
qed

lemma slot_value_nodes:
  assumes "slot_value schema key xs = Some v" and "cv \<in> set (slot_nodes v)"
  shows "slot_of schema cv = Some key"
proof (cases "allowMultiple schema key")
  case True
  with assms show ?thesis by (auto simp: slot_value_def matches_def)
next
  case False
  with assms(1) have ne: "matches schema key xs \<noteq> []" and v: "v = last (matches schema key xs)"
    by (auto simp: slot_value_def split: if_splits)
  from last_matches [OF ne] v have "slot_of schema v = Some key" by simp
  with assms(2) show ?thesis by (simp add: slot_of_slot_nodes)
qed

lemma matches_all_slot_nodes:
  assumes "distinct (map fst ss)"
    and "\<And>k v cv. map_of ss k = Some v \<Longrightarrow> cv \<in> set (slot_nodes v) \<Longrightarrow> slot_of schema cv = Some k"
  shows "matches schema key (all_slot_nodes ss) = (case map_of ss key of None \<Rightarrow> [] | Some v \<Rightarrow> slot_nodes v)"
  using assms
proof (induction ss)
  case Nil
  show ?case by (simp add: all_slot_nodes_def matches_def)
next
  case (Cons e rest)
  obtain k0 v0 where e: "e = (k0, v0)" by (cases e)
  from Cons.prems(1) have d: "distinct (map fst rest)" and notin: "k0 \<notin> fst ` set rest"
    by (auto simp: e)
  have rest: "map_of rest k = Some v \<Longrightarrow> cv \<in> set (slot_nodes v) \<Longrightarrow> slot_of schema cv = Some k" for k v cv
  proof -
    assume a: "map_of rest k = Some v" "cv \<in> set (slot_nodes v)"
    then have "(k, v) \<in> set rest" by (auto dest: map_of_SomeD)
    then have "k \<in> fst ` set rest" by force
    then have "k \<noteq> k0" using notin by auto
    with a Cons.prems(2) [of k v cv] show ?thesis by (simp add: e)
  qed
  have head: "cv \<in> set (slot_nodes v0) \<Longrightarrow> slot_of schema cv = Some k0" for cv
    using Cons.prems(2) [of k0 v0 cv] by (simp add: e)
  have ih: "matches schema key (all_slot_nodes rest) = (case map_of rest key of None \<Rightarrow> [] | Some v \<Rightarrow> slot_nodes v)"
    using Cons.IH [OF d rest] by simp
  have split: "matches schema key (all_slot_nodes (e # rest)) =
      matches schema key (slot_nodes v0) @ matches schema key (all_slot_nodes rest)"
    by (simp add: all_slot_nodes_def matches_def e)
  show ?case
  proof (cases "key = k0")
    case True
    then have none: "map_of rest key = None" using notin by (simp add: map_of_eq_None_iff)
    have all: "matches schema key (slot_nodes v0) = slot_nodes v0"
      unfolding matches_def using head True by (auto intro: filter_True)
    have "matches schema key (all_slot_nodes (e # rest)) = slot_nodes v0"
      by (simp add: split ih none all)
    moreover have "map_of (e # rest) key = Some v0" using True by (simp add: e)
    ultimately show ?thesis by simp
  next
    case False
    have none: "matches schema key (slot_nodes v0) = []"
      unfolding matches_def using head False by (auto simp: filter_empty_conv)
    have "matches schema key (all_slot_nodes (e # rest)) =
        (case map_of rest key of None \<Rightarrow> [] | Some v \<Rightarrow> slot_nodes v)"
      by (simp add: split ih none)
    moreover have "map_of (e # rest) key = map_of rest key" using False by (simp add: e)
    ultimately show ?thesis by simp
  qed
qed

lemma schema_loop_append:
  "schema_loop (xs @ ys) acc = schema_loop ys (schema_loop xs acc)"
proof (induction xs arbitrary: acc)
  case Nil
  show ?case by simp
next
  case (Cons e xs)
  obtain slot v where e: "e = (slot, v)" by (cases e)
  obtain cm ss where acc: "acc = (cm, ss)" by (cases acc)
  show ?case by (simp add: e acc Cons.IH)
qed

lemma schema_loop_mapping_entries:
  "schema_loop (pre @ [(key, Mapping obj es)] @ post) acc =
   schema_loop (pre @ [(key, Mapping obj es')] @ post) acc"
proof -
  obtain cm ss where "schema_loop pre acc = (cm, ss)" by (cases "schema_loop pre acc")
  then show ?thesis by (simp add: schema_loop_append)
qed

lemma allowMultiple_mapping_entries:
  "allowMultiple (pre @ [(key, Mapping obj es)] @ post) k =
   allowMultiple (pre @ [(key, Mapping obj es')] @ post) k"
  by (simp add: allowMultiple_def map_add_def split: option.splits)

lemma reduce_cong_allowMultiple:
  assumes "\<And>k. allowMultiple schema k = allowMultiple schema' k"
  shows "reduce cm schema xs p = reduce cm schema' xs p"
proof (induction xs arbitrary: p)
  case Nil
  show ?case by simp
next
  case (Cons x xs)
  have "allowMultiple schema = allowMultiple schema'"
    using assms by (simp add: fun_eq_iff)
  then have "reducer cm schema p x = reducer cm schema' p x"
    unfolding reducer_def by (simp only:)
  then show ?case by (simp add: Cons.IH split: sum.splits)
qed

lemma getSlots_mapping_entries:
  "getSlots ch (pre @ [(key, Mapping obj es)] @ post) = getSlots ch (pre @ [(key, Mapping obj es')] @ post)"
proof -
  have "reduce cm (pre @ [(key, Mapping obj es)] @ post) xs p =
        reduce cm (pre @ [(key, Mapping obj es')] @ post) xs p" for cm xs p
    by (rule reduce_cong_allowMultiple) (rule allowMultiple_mapping_entries)
  then show ?thesis
    unfolding getSlots_def schema_loop_mapping_entries [of pre key obj es post _ es']
    by (simp split: prod.splits sum.splits)
qed

lemma all_slot_nodes_update_new:
  "map_of ss k = None \<Longrightarrow>
   mset (all_slot_nodes (AList.update k v ss)) = mset (all_slot_nodes ss) + mset (slot_nodes v)"
  by (induction ss) (auto simp: all_slot_nodes_def split: if_splits)

lemma all_slot_nodes_update_old:
  "map_of ss k = Some v0 \<Longrightarrow>
   mset (all_slot_nodes (AList.update k v ss)) + mset (slot_nodes v0) =
   mset (all_slot_nodes ss) + mset (slot_nodes v)"
  by (induction ss) (auto simp: all_slot_nodes_def split: if_splits)

lemma matches_Cons:
  "matches schema key (x # xs) =
     (if slot_of schema x = Some key then x # matches schema key xs else matches schema key xs)"
  by (simp add: matches_def)

lemma overwritten_snoc:
  "mset (overwritten schema (xs @ [x])) =
     mset (overwritten schema xs) +
     (case slot_of schema x of
        Some key \<Rightarrow>
          if \<not> allowMultiple schema key \<and> matches schema key xs \<noteq> []
          then {#last (matches schema key xs)#} else {#}
      | None \<Rightarrow> {#})"
proof (induction xs)
  case Nil
  show ?case by (simp add: matches_def split: option.splits)
next
  case (Cons a xs)
  show ?case
    by (cases "slot_of schema a"; cases "slot_of schema x")
       (auto simp: Cons.IH matches_snoc matches_Cons)
qed

lemma reduce_partition:
  assumes d: "distinct (map fst schema)"
  shows "reduce (constructorMap_of schema) schema xs \<lparr>children = [], slots = sortedSlots_of schema\<rparr> = Inr p \<Longrightarrow>
     mset (children p) + mset (all_slot_nodes (slots p)) + mset (overwritten schema xs) = mset xs"
proof (induction xs arbitrary: p rule: rev_induct)
  case Nil
  have "all_slot_nodes (sortedSlots_of schema) = []"
  proof -
    have "v = Arr []" if "(k, v) \<in> set (sortedSlots_of schema)" for k v
    proof -
      from that have "map_of (sortedSlots_of schema) k = Some v"
        using sortedSlots_of_distinct [of schema] by simp
      then show ?thesis by (simp add: sortedSlots_of_map_of [OF d] split: if_splits)
    qed
    then have "slot_nodes v = []" if "(k, v) \<in> set (sortedSlots_of schema)" for k v
      using that by fastforce
    then show ?thesis by (auto simp: all_slot_nodes_def)
  qed
  with Nil show ?case by auto
next
  case (snoc x xs)
  from snoc.prems obtain q where
    q: "reduce (constructorMap_of schema) schema xs \<lparr>children = [], slots = sortedSlots_of schema\<rparr> = Inr q"
    and step: "reducer (constructorMap_of schema) schema q x = Inr p"
    by (auto simp: reduce_snoc_Inr)
  note ih = snoc.IH [OF q]
  from reduce_invariant [OF d q] have sl: "\<And>key. map_of (slots q) key = slot_value schema key xs"
    by auto
  show ?case
  proof (cases "slot_of schema x")
    case None
    with step have "p = q\<lparr>children := children q @ [x]\<rparr>" by (simp add: reducer_unmatched)
    with None ih show ?thesis by (simp add: overwritten_snoc)
  next
    case (Some k)
    then have nx: "slot_nodes x = [x]" by (rule slot_of_slot_nodes)
    show ?thesis
    proof (cases "allowMultiple schema k")
      case False
      with step Some have p: "p = q\<lparr>slots := AList.update k x (slots q)\<rparr>"
        by (simp add: reducer_single)
      show ?thesis
      proof (cases "matches schema k xs = []")
        case True
        with False sl have "map_of (slots q) k = None" by (simp add: slot_value_def)
        then have "mset (all_slot_nodes (slots p)) = mset (all_slot_nodes (slots q)) + {#x#}"
          by (simp add: p all_slot_nodes_update_new nx)
        with ih Some False True show ?thesis by (simp add: p overwritten_snoc)
      next
        case ne: False
        let ?v = "last (matches schema k xs)"
        from False ne sl have "map_of (slots q) k = Some ?v" by (simp add: slot_value_def)
        moreover have "slot_nodes ?v = [?v]"
          using last_matches [OF ne] by (rule slot_of_slot_nodes)
        ultimately have upd: "mset (all_slot_nodes (slots p)) + {#?v#} = mset (all_slot_nodes (slots q)) + {#x#}"
          using all_slot_nodes_update_old [of "slots q" k ?v x] by (simp add: p nx)
        have ov: "mset (overwritten schema (xs @ [x])) = mset (overwritten schema xs) + {#?v#}"
          using Some False ne by (simp add: overwritten_snoc)
        have "mset (children p) + mset (all_slot_nodes (slots p)) + mset (overwritten schema (xs @ [x])) =
              mset (children q) + (mset (all_slot_nodes (slots p)) + {#?v#}) + mset (overwritten schema xs)"
          by (simp add: p ov)
        also have "\<dots> = mset (children q) + (mset (all_slot_nodes (slots q)) + {#x#}) + mset (overwritten schema xs)"
          by (simp only: upd)
        also have "\<dots> = (mset (children q) + mset (all_slot_nodes (slots q)) + mset (overwritten schema xs)) + {#x#}"
          by simp
        also have "\<dots> = mset (xs @ [x])" by (simp only: ih) simp
        finally show ?thesis .
      qed
    next
      case True
      let ?ms = "matches schema k xs"
      from True sl have old: "map_of (slots q) k = Some (Arr ?ms)" by (simp add: slot_value_def)
      with step Some True have p: "p = q\<lparr>slots := AList.update k (Arr (?ms @ [x])) (slots q)\<rparr>"
        by (simp add: reducer_multiple)
      from all_slot_nodes_update_old [OF old, of "Arr (?ms @ [x])"]
      have "mset (all_slot_nodes (slots p)) = mset (all_slot_nodes (slots q)) + {#x#}"
        by (simp add: p)
      moreover have "mset (overwritten schema (xs @ [x])) = mset (overwritten schema xs)"
        using Some True by (simp add: overwritten_snoc)
      moreover have "children p = children q" by (simp add: p)
      ultimately show ?thesis using ih by simp
    qed
  qed
qed

lemma slot_size_slot_nodes: "slot_size v = length (slot_nodes v)"
  by (cases v) simp_all

lemma length_all_slot_nodes: "length (all_slot_nodes ss) = slots_size ss"
  by (induction ss) (auto simp: all_slot_nodes_def slots_size_def slot_size_slot_nodes)










lemma fold_update_map_of:
  "map_of (fold (\<lambda>(key, v). AList.update key v) es acc) k =
     (case map_of (rev es) k of Some v \<Rightarrow> Some v | None \<Rightarrow> map_of acc k)"
proof (induction es arbitrary: acc)
  case Nil
  show ?case by simp
next
  case (Cons e es)
  obtain key v where e: "e = (key, v)" by (cases e)
  show ?case by (simp add: e Cons.IH update_conv' map_add_def split: option.splits)
qed

lemma fold_update_keys:
  "fst ` set (fold (\<lambda>(key, v). AList.update key v) es acc) = fst ` set acc \<union> fst ` set es"
proof (induction es arbitrary: acc)
  case Nil
  show ?case by simp
next
  case (Cons e es)
  obtain key v where e: "e = (key, v)" by (cases e)
  show ?case by (simp add: e Cons.IH dom_update)
qed

lemma fold_update_distinct:
  "distinct (map fst acc) \<Longrightarrow> distinct (map fst (fold (\<lambda>(key, v). AList.update key v) es acc))"
proof (induction es arbitrary: acc)
  case Nil
  then show ?case by simp
next
  case (Cons e es)
  obtain key v where e: "e = (key, v)" by (cases e)
  show ?case using Cons.prems by (simp add: e Cons.IH distinct_update)
qed

lemma map_of_rev_distinct: "distinct (map fst es) \<Longrightarrow> map_of (rev es) k = map_of es k"
proof (cases "map_of es k")
  case None
  then have "map_of (rev es) k = None" by (simp add: map_of_eq_None_iff)
  with None show ?thesis by simp
next
  case (Some v)
  assume d: "distinct (map fst es)"
  then have "distinct (map fst (rev es))" by (simp add: distinct_rev flip: rev_map)
  moreover from Some have "(k, v) \<in> set (rev es)" by (auto dest: map_of_SomeD)
  ultimately have "map_of (rev es) k = Some v" by (rule map_of_is_SomeI)
  with Some show ?thesis by simp
qed

lemma Object_assign_Inr:
  "fst ` set source \<inter> set function_readonly_keys = {} \<Longrightarrow>
   Object_assign target source = Inr (fold (\<lambda>(key, v). AList.update key v) source target)"
proof (induction source arbitrary: target)
  case Nil
  show ?case by simp
next
  case (Cons e source)
  obtain key v where e: "e = (key, v)" by (cases e)
  from Cons.prems have "key \<notin> set function_readonly_keys"
    and "fst ` set source \<inter> set function_readonly_keys = {}" by (auto simp: e)
  then show ?case by (simp add: e Cons.IH)
qed

lemma Object_assign_Inl:
  "fst ` set source \<inter> set function_readonly_keys \<noteq> {} \<Longrightarrow> Object_assign target source = Inl TypeError"
proof (induction source arbitrary: target)
  case Nil
  then show ?case by simp
next
  case (Cons e source)
  obtain key v where e: "e = (key, v)" by (cases e)
  show ?case
  proof (cases "key \<in> set function_readonly_keys")
    case True
    then show ?thesis by (simp add: e)
  next
    case False
    with Cons.prems have "fst ` set source \<inter> set function_readonly_keys \<noteq> {}" by (auto simp: e)
    with False show ?thesis by (simp add: e Cons.IH)
  qed
qed

section \<open>The claims\<close>

text \<open>
  Claim C1, as stated, fails. The schema loop registers a mapping under the mapping
  object itself (\<^verbatim>\<open>constructorMap.set(schema[slot], slot)\<close>), never under the component
  it holds, so a node of that component is not matched: it stays in \<^verbatim>\<open>children\<close>. This is
  the repository's own test "handles namespaced slot".
\<close>

theorem namespaced_counterexample:
  "getSlots (Element (TyComponent 1) 0 Undefined) [(''Namespaced'', Mapping 7 [(''GenericDiv'', 1)])]
     = Inr \<lparr>children = [Element (TyComponent 1) 0 Undefined], slots = []\<rparr>"
  by code_simp

text \<open>
  Claim C1, amended. For a schema with a namespaced entry \<open>(key, Mapping obj [(label, c)])\<close>
  whose component \<open>c\<close> is not also the component of a component or tuple entry: when
  \<^verbatim>\<open>getSlots\<close> returns, every flattened node of type \<open>c\<close> is kept in the output
  \<^verbatim>\<open>children\<close>, in order, and \<open>key\<close> is not a key of the output \<^verbatim>\<open>slots\<close>.
\<close>

theorem namespaced_nodes_stay_in_children:
  assumes "distinct (map fst schema)" and "getSlots ch schema = Inr r"
    and "(key, Mapping obj [(label, c)]) \<in> set schema"
    and "\<forall>(k, v) \<in> set schema. schema_ref v \<noteq> FnRef c"
  shows "filter (type_is c) (children r) = filter (type_is c) (flattened ch) \<and>
         key \<notin> fst ` set (slots r)"
proof -
  from assms(4) have none: "constructorMap_of schema (FnRef c) = None"
    by (rule constructorMap_of_None)
  have "type_is c cv \<Longrightarrow> slot_of schema cv = None" for cv
    using none by (simp add: type_is_slot_of)
  then have "filter (type_is c) (filter (\<lambda>cv. slot_of schema cv = None) xs) = filter (type_is c) xs" for xs
    by (induction xs) auto
  then have a: "filter (type_is c) (children r) = filter (type_is c) (flattened ch)"
    by (simp add: getSlots_invariant(1) [OF assms(1,2)])
  have na: "\<not> allowMultiple schema key"
  proof
    assume "allowMultiple schema key"
    then obtain v where "(key, v) \<in> set schema" and t: "is_tuple v"
      using assms(1) by (auto simp: allowMultiple_iff)
    with assms(1,3) have "v = Mapping obj [(label, c)]" by (metis eq_key_imp_eq_value)
    with t show False by simp
  qed
  have "slot_of schema cv \<noteq> Some key" for cv
  proof
    assume "slot_of schema cv = Some key"
    then obtain c' v where "(key, v) \<in> set schema" and r: "schema_ref v = FnRef c'"
      using slot_of_SomeD by blast
    with assms(1,3) have "v = Mapping obj [(label, c)]" by (metis eq_key_imp_eq_value)
    with r show False by simp
  qed
  then have "matches schema key (flattened ch) = []"
    by (simp add: matches_def)
  with na have "map_of (slots r) key = None"
    by (simp add: getSlots_invariant(3) [OF assms(1,2)] slot_value_def)
  then have "key \<notin> fst ` set (slots r)" by (simp add: map_of_eq_None_iff)
  with a show ?thesis by simp
qed

text \<open>
  C1 amended, at a schema with a namespaced and a component entry.
\<close>

theorem namespaced_nodes_stay_in_children_witness:
  "getSlots (Arr [Element (TyComponent 1) 1 Undefined, Element (TyComponent 2) 2 Undefined,
                  Element (TyComponent 1) 3 Undefined])
            [(''Namespaced'', Mapping 7 [(''GenericDiv'', 1)]), (''Title'', Component 2)]
     = Inr \<lparr>children = [Element (TyComponent 1) 1 Undefined, Element (TyComponent 1) 3 Undefined],
            slots = [(''Title'', Element (TyComponent 2) 2 Undefined)]\<rparr> \<and>
   filter (type_is 1) (flattened (Arr [Element (TyComponent 1) 1 Undefined, Element (TyComponent 2) 2 Undefined,
                  Element (TyComponent 1) 3 Undefined]))
     = [Element (TyComponent 1) 1 Undefined, Element (TyComponent 1) 3 Undefined] \<and>
   ''Namespaced'' \<notin> fst ` set [(''Title'', Element (TyComponent 2) 2 Undefined)]"
proof -
  let ?X = "Arr [Element (TyComponent 1) 1 Undefined, Element (TyComponent 2) 2 Undefined,
                  Element (TyComponent 1) 3 Undefined]"
  let ?S = "[(''Namespaced'', Mapping 7 [(''GenericDiv'', 1)]), (''Title'', Component 2)]"
  let ?R = "\<lparr>children = [Element (TyComponent 1) 1 Undefined, Element (TyComponent 1) 3 Undefined],
            slots = [(''Title'', Element (TyComponent 2) 2 Undefined)]\<rparr>"
  have d: "distinct (map fst ?S)" by simp
  have g: "getSlots ?X ?S = Inr ?R" by code_simp
  have e: "(''Namespaced'', Mapping 7 [(''GenericDiv'', 1)]) \<in> set ?S" by simp
  have n: "\<forall>(k, v) \<in> set ?S. schema_ref v \<noteq> FnRef 1" by simp
  have f: "filter (type_is 1) (children ?R) = [Element (TyComponent 1) 1 Undefined, Element (TyComponent 1) 3 Undefined]"
    by (simp add: type_is_def)
  from namespaced_nodes_stay_in_children [OF d g e n] show ?thesis using g f by simp
qed

text \<open>
  Claim C2 fails on the code. The falsy filter runs before the \<^verbatim>\<open>flatMap\<close>, so a
  \<^verbatim>\<open>null\<close> among the children of a fragment reaches the reducer, where \<^verbatim>\<open>cv.type\<close>
  raises a TypeError. The schema below is the test suite's \<^verbatim>\<open>SLOT_SCHEMA\<close>; the children are
  \<^verbatim>\<open>[<>{null}<GenericDiv /></>]\<close>.
\<close>

theorem getSlots_fragment_null_raises:
  "getSlots (Arr [Element ReactFragmentSymbol 5
                    (Arr [Null, Element (TyComponent 1) 6 Undefined])]) [(''GenericDiv'', Tuple 1)]
     = Inl TypeError"
  by code_simp

text \<open>
  Claim C3, as stated, fails. Two nodes match one slot that is not repeatable: the second
  overwrites the first, which is then in no bucket. The schema has no namespaced entry, so
  the count of namespaced matches is 0; the buckets hold one node, the flattened input two.
\<close>

theorem partition_count_counterexample:
  "getSlots (Arr [Element (TyComponent 1) 1 Undefined, Element (TyComponent 1) 2 Undefined])
            [(''Title'', Component 1)]
     = Inr \<lparr>children = [], slots = [(''Title'', Element (TyComponent 1) 2 Undefined)]\<rparr> \<and>
   length ([] :: node list) + slots_size [(''Title'', Element (TyComponent 1) 2 Undefined)] + 0
     \<noteq> length (flattened (Arr [Element (TyComponent 1) 1 Undefined, Element (TyComponent 1) 2 Undefined]))"
  by code_simp

text \<open>
  Claim C3, amended. When \<^verbatim>\<open>getSlots\<close> returns, the flattened input is partitioned, as a
  multiset, into the output \<^verbatim>\<open>children\<close>, the nodes held by the slots, and the overwritten
  matches (the matches of a slot that is not repeatable, but for the last one). So the
  count of \<^verbatim>\<open>children\<close>, plus the sizes of the slots (1 for a single value, the length
  for an array), plus the count of overwritten matches, is the count of flattened nodes.
  There is no namespaced bucket: the nodes of a namespaced component are among
  \<^verbatim>\<open>children\<close>.
\<close>

theorem getSlots_partition:
  assumes "distinct (map fst schema)" and "getSlots ch schema = Inr r"
  shows "mset (children r) + mset (all_slot_nodes (slots r)) + mset (overwritten schema (flattened ch))
           = mset (flattened ch) \<and>
         length (children r) + slots_size (slots r) + length (overwritten schema (flattened ch))
           = length (flattened ch)"
proof -
  from assms(2) have "reduce (constructorMap_of schema) schema (flattened ch)
      \<lparr>children = [], slots = sortedSlots_of schema\<rparr> = Inr r"
    by (simp add: getSlots_reduce)
  from reduce_partition [OF assms(1) this]
  have m: "mset (children r) + mset (all_slot_nodes (slots r)) + mset (overwritten schema (flattened ch))
           = mset (flattened ch)" .
  then have "size (mset (children r) + mset (all_slot_nodes (slots r)) + mset (overwritten schema (flattened ch)))
           = size (mset (flattened ch))" by simp
  then have "length (children r) + length (all_slot_nodes (slots r)) + length (overwritten schema (flattened ch))
           = length (flattened ch)" by simp
  with m show ?thesis by (simp add: length_all_slot_nodes)
qed

text \<open>
  C3 amended, on five flattened nodes: one leftover, two in a repeatable slot, one in a
  single-valued slot and one overwritten there.
\<close>

theorem getSlots_partition_witness:
  "getSlots (Arr [Element (TyComponent 1) 1 Undefined, Element (TyString ''div'') 2 Undefined,
                  Element (TyComponent 1) 3 Undefined,
                  Element ReactFragmentSymbol 4 (Arr [Element (TyComponent 2) 5 Undefined,
                                                      Element (TyComponent 2) 6 Undefined])])
            [(''Title'', Component 1), (''Item'', Tuple 2)]
     = Inr \<lparr>children = [Element (TyString ''div'') 2 Undefined],
            slots = [(''Item'', Arr [Element (TyComponent 2) 5 Undefined, Element (TyComponent 2) 6 Undefined]),
                     (''Title'', Element (TyComponent 1) 3 Undefined)]\<rparr> \<and>
   overwritten [(''Title'', Component 1), (''Item'', Tuple 2)]
     (flattened (Arr [Element (TyComponent 1) 1 Undefined, Element (TyString ''div'') 2 Undefined,
                  Element (TyComponent 1) 3 Undefined,
                  Element ReactFragmentSymbol 4 (Arr [Element (TyComponent 2) 5 Undefined,
                                                      Element (TyComponent 2) 6 Undefined])]))
     = [Element (TyComponent 1) 1 Undefined] \<and>
   (1::nat) + (2 + 1) + 1
     = length (flattened (Arr [Element (TyComponent 1) 1 Undefined, Element (TyString ''div'') 2 Undefined,
                  Element (TyComponent 1) 3 Undefined,
                  Element ReactFragmentSymbol 4 (Arr [Element (TyComponent 2) 5 Undefined,
                                                      Element (TyComponent 2) 6 Undefined])]))"
proof -
  let ?X = "Arr [Element (TyComponent 1) 1 Undefined, Element (TyString ''div'') 2 Undefined,
                  Element (TyComponent 1) 3 Undefined,
                  Element ReactFragmentSymbol 4 (Arr [Element (TyComponent 2) 5 Undefined,
                                                      Element (TyComponent 2) 6 Undefined])]"
  let ?S = "[(''Title'', Component 1), (''Item'', Tuple 2)]"
  let ?R = "\<lparr>children = [Element (TyString ''div'') 2 Undefined],
            slots = [(''Item'', Arr [Element (TyComponent 2) 5 Undefined, Element (TyComponent 2) 6 Undefined]),
                     (''Title'', Element (TyComponent 1) 3 Undefined)]\<rparr>"
  have d: "distinct (map fst ?S)" by simp
  have g: "getSlots ?X ?S = Inr ?R" by code_simp
  have o: "overwritten ?S (flattened ?X) = [Element (TyComponent 1) 1 Undefined]" by code_simp
  from getSlots_partition [OF d g] have
    "length (children ?R) + slots_size (slots ?R) + length (overwritten ?S (flattened ?X))
       = length (flattened ?X)" by (rule conjunct2)
  then have "(1::nat) + (2 + 1) + 1 = length (flattened ?X)"
    by (simp only: o) (simp add: slots_size_def)
  with g o show ?thesis by blast
qed

text \<open>
  Claim C4. Let a component entry \<open>(key, Component c)\<close> be the one the lookup resolves
  \<open>c\<close> to, and let two or more flattened nodes have type \<open>c\<close>. When \<^verbatim>\<open>getSlots\<close>
  returns, the slot holds the last of them; no node of type \<open>c\<close> is in the output
  \<^verbatim>\<open>children\<close>; and the only node of type \<open>c\<close> held anywhere in \<^verbatim>\<open>slots\<close> is that last
  one, once: the earlier matches are in neither.
\<close>

theorem getSlots_last_match_wins:
  assumes "distinct (map fst schema)" and "getSlots ch schema = Inr r"
    and "(key, Component c) \<in> set schema"
    and "constructorMap_of schema (FnRef c) = Some key"
    and "2 \<le> length (filter (type_is c) (flattened ch))"
  shows "map_of (slots r) key = Some (last (filter (type_is c) (flattened ch))) \<and>
         filter (type_is c) (children r) = [] \<and>
         filter (type_is c) (all_slot_nodes (slots r)) = [last (filter (type_is c) (flattened ch))]"
proof -
  have m: "matches schema key xs = filter (type_is c) xs" for xs
    using matches_type_is [OF assms(1) assms(3) _ assms(4)] by simp
  have na: "\<not> allowMultiple schema key"
  proof
    assume "allowMultiple schema key"
    then obtain v where "(key, v) \<in> set schema" and t: "is_tuple v"
      using assms(1) by (auto simp: allowMultiple_iff)
    with assms(1,3) have "v = Component c" by (metis eq_key_imp_eq_value)
    with t show False by simp
  qed
  from assms(5) have ne: "filter (type_is c) (flattened ch) \<noteq> []" by auto
  have sl: "map_of (slots r) key = Some (last (filter (type_is c) (flattened ch)))"
    using getSlots_invariant(3) [OF assms(1,2), of key] na ne by (simp add: slot_value_def m)
  have "filter (type_is c) (children r) = []"
  proof -
    have "\<not> (type_is c cv \<and> slot_of schema cv = None)" for cv
      using type_is_slot_of [of c cv schema] assms(4) by auto
    then show ?thesis
      unfolding getSlots_invariant(1) [OF assms(1,2)] by (auto simp: filter_empty_conv)
  qed
  moreover have "matches schema key (all_slot_nodes (slots r)) =
      (case map_of (slots r) key of None \<Rightarrow> [] | Some v \<Rightarrow> slot_nodes v)"
  proof (rule matches_all_slot_nodes)
    show "distinct (map fst (slots r))" by (rule getSlots_invariant(2) [OF assms(1,2)])
  next
    fix k v cv
    assume "map_of (slots r) k = Some v" and "cv \<in> set (slot_nodes v)"
    then show "slot_of schema cv = Some k"
      using getSlots_invariant(3) [OF assms(1,2), of k] slot_value_nodes [of schema k "flattened ch" v cv]
      by simp
  qed
  moreover have "slot_nodes (last (filter (type_is c) (flattened ch))) = [last (filter (type_is c) (flattened ch))]"
  proof -
    from last_matches [of schema key "flattened ch"] ne
    have "slot_of schema (last (filter (type_is c) (flattened ch))) = Some key" by (simp add: m)
    then show ?thesis by (rule slot_of_slot_nodes)
  qed
  ultimately show ?thesis using sl by (simp add: m)
qed

text \<open>C4 on two matches of a single-valued slot around a leftover node.\<close>

theorem getSlots_last_match_wins_witness:
  "getSlots (Arr [Element (TyComponent 1) 1 Undefined, Element (TyString ''div'') 2 Undefined,
                  Element (TyComponent 1) 3 Undefined]) [(''Title'', Component 1)]
     = Inr \<lparr>children = [Element (TyString ''div'') 2 Undefined],
            slots = [(''Title'', Element (TyComponent 1) 3 Undefined)]\<rparr> \<and>
   last (filter (type_is 1) (flattened (Arr [Element (TyComponent 1) 1 Undefined,
       Element (TyString ''div'') 2 Undefined, Element (TyComponent 1) 3 Undefined])))
     = Element (TyComponent 1) 3 Undefined \<and>
   filter (type_is 1) (all_slot_nodes [(''Title'', Element (TyComponent 1) 3 Undefined)])
     = [Element (TyComponent 1) 3 Undefined]"
proof -
  let ?X = "Arr [Element (TyComponent 1) 1 Undefined, Element (TyString ''div'') 2 Undefined,
                  Element (TyComponent 1) 3 Undefined]"
  let ?S = "[(''Title'', Component 1)]"
  let ?R = "\<lparr>children = [Element (TyString ''div'') 2 Undefined],
            slots = [(''Title'', Element (TyComponent 1) 3 Undefined)]\<rparr>"
  have d: "distinct (map fst ?S)" by simp
  have g: "getSlots ?X ?S = Inr ?R" by code_simp
  have e: "(''Title'', Component 1) \<in> set ?S" by simp
  have m: "constructorMap_of ?S (FnRef 1) = Some ''Title''" by code_simp
  have n: "2 \<le> length (filter (type_is 1) (flattened ?X))" by code_simp
  from getSlots_last_match_wins [OF d g e m n] show ?thesis using g by simp
qed



text \<open>
  Claim C6. When \<^verbatim>\<open>getSlots\<close> returns, the output \<^verbatim>\<open>children\<close> and the array of every
  repeatable slot are subsequences of the filtered, one-level-flattened input: any two
  of their elements stand in the order they have there.
\<close>

theorem getSlots_stable_partition:
  assumes "distinct (map fst schema)" and "getSlots ch schema = Inr r"
  shows "subseq (children r) (flattened ch) \<and>
         (\<forall>key c. (key, Tuple c) \<in> set schema \<longrightarrow>
            (\<exists>xs. map_of (slots r) key = Some (Arr xs) \<and> subseq xs (flattened ch)))"
proof -
  have "subseq (children r) (flattened ch)"
    by (simp add: getSlots_invariant(1) [OF assms])
  moreover have "\<exists>xs. map_of (slots r) key = Some (Arr xs) \<and> subseq xs (flattened ch)"
    if "(key, Tuple c) \<in> set schema" for key c
  proof -
    from that assms(1) have "allowMultiple schema key" by (auto simp: allowMultiple_iff)
    then have "map_of (slots r) key = Some (Arr (matches schema key (flattened ch)))"
      by (simp add: getSlots_invariant(3) [OF assms] slot_value_def)
    then show ?thesis by (simp add: matches_def)
  qed
  ultimately show ?thesis by blast
qed

text \<open>C6 on children with a fragment, two leftover nodes and three matches of a repeatable slot.\<close>

theorem getSlots_stable_partition_witness:
  "getSlots (Arr [Element (TyComponent 1) 1 Undefined, Element (TyString ''div'') 2 Undefined,
       Element ReactFragmentSymbol 3 (Arr [Element (TyComponent 1) 4 Undefined, Element (TyString ''div'') 5 Undefined]),
       Element (TyComponent 1) 6 Undefined]) [(''GenericDiv'', Tuple 1)]
     = Inr \<lparr>children = [Element (TyString ''div'') 2 Undefined, Element (TyString ''div'') 5 Undefined],
            slots = [(''GenericDiv'', Arr [Element (TyComponent 1) 1 Undefined, Element (TyComponent 1) 4 Undefined,
                                           Element (TyComponent 1) 6 Undefined])]\<rparr> \<and>
   subseq [Element (TyString ''div'') 2 Undefined, Element (TyString ''div'') 5 Undefined]
     (flattened (Arr [Element (TyComponent 1) 1 Undefined, Element (TyString ''div'') 2 Undefined,
       Element ReactFragmentSymbol 3 (Arr [Element (TyComponent 1) 4 Undefined, Element (TyString ''div'') 5 Undefined]),
       Element (TyComponent 1) 6 Undefined])) \<and>
   subseq [Element (TyComponent 1) 1 Undefined, Element (TyComponent 1) 4 Undefined, Element (TyComponent 1) 6 Undefined]
     (flattened (Arr [Element (TyComponent 1) 1 Undefined, Element (TyString ''div'') 2 Undefined,
       Element ReactFragmentSymbol 3 (Arr [Element (TyComponent 1) 4 Undefined, Element (TyString ''div'') 5 Undefined]),
       Element (TyComponent 1) 6 Undefined]))"
proof -
  let ?X = "Arr [Element (TyComponent 1) 1 Undefined, Element (TyString ''div'') 2 Undefined,
       Element ReactFragmentSymbol 3 (Arr [Element (TyComponent 1) 4 Undefined, Element (TyString ''div'') 5 Undefined]),
       Element (TyComponent 1) 6 Undefined]"
  let ?S = "[(''GenericDiv'', Tuple 1)]"
  let ?R = "\<lparr>children = [Element (TyString ''div'') 2 Undefined, Element (TyString ''div'') 5 Undefined],
            slots = [(''GenericDiv'', Arr [Element (TyComponent 1) 1 Undefined, Element (TyComponent 1) 4 Undefined,
                                           Element (TyComponent 1) 6 Undefined])]\<rparr>"
  have d: "distinct (map fst ?S)" by simp
  have g: "getSlots ?X ?S = Inr ?R" by code_simp
  from getSlots_stable_partition [OF d g] have a: "subseq (children ?R) (flattened ?X)"
    and b: "\<And>key c. (key, Tuple c) \<in> set ?S \<Longrightarrow>
            (\<exists>xs. map_of (slots ?R) key = Some (Arr xs) \<and> subseq xs (flattened ?X))"
    by blast+
  from b [of "''GenericDiv''" 1] have "subseq [Element (TyComponent 1) 1 Undefined, Element (TyComponent 1) 4 Undefined,
      Element (TyComponent 1) 6 Undefined] (flattened ?X)" by simp
  with a g show ?thesis by simp
qed

text \<open>
  Claim C7. For a schema (an object, so its keys are distinct) and absent or empty
  children (any falsy value, such as \<^verbatim>\<open>undefined\<close> or \<^verbatim>\<open>null\<close>, or the empty array),
  \<^verbatim>\<open>getSlots\<close> returns; \<^verbatim>\<open>children\<close> is empty; every tuple (repeatable) entry is present
  in \<^verbatim>\<open>slots\<close> as the empty array; every component entry and every mapping (namespaced)
  entry is absent from \<^verbatim>\<open>slots\<close>.
\<close>

theorem getSlots_empty_children:
  assumes "distinct (map fst schema)" and "\<not> truthy ch \<or> ch = Arr []"
  shows "\<exists>r. getSlots ch schema = Inr r \<and> children r = [] \<and>
           (\<forall>key v. (key, v) \<in> set schema \<longrightarrow>
              map_of (slots r) key = (if is_tuple v then Some (Arr []) else None))"
proof -
  from assms(2) have "flattened ch = []"
    by (auto simp: flattened_def children_array_def)
  then have g: "getSlots ch schema = Inr \<lparr>children = [], slots = sortedSlots_of schema\<rparr>"
    by (simp add: getSlots_reduce)
  have "map_of (sortedSlots_of schema) key = (if is_tuple v then Some (Arr []) else None)"
    if "(key, v) \<in> set schema" for key v
    using that assms(1) by (auto simp: sortedSlots_of_map_of allowMultiple_iff dest: eq_key_imp_eq_value)
  with g show ?thesis by simp
qed

text \<open>C7 at a schema with one entry of each form, on \<^verbatim>\<open>undefined\<close> children.\<close>

theorem getSlots_empty_children_witness:
  "\<exists>r. getSlots Undefined [(''A'', Component 1), (''B'', Tuple 2), (''C'', Mapping 3 [(''x'', 4)])] = Inr r \<and>
        children r = [] \<and> map_of (slots r) ''A'' = None \<and> map_of (slots r) ''B'' = Some (Arr []) \<and>
        map_of (slots r) ''C'' = None"
proof -
  let ?S = "[(''A'', Component 1), (''B'', Tuple 2), (''C'', Mapping 3 [(''x'', 4)])]"
  have d: "distinct (map fst ?S)" by simp
  have e: "\<not> truthy Undefined \<or> Undefined = Arr []" by simp
  from getSlots_empty_children [OF d e] obtain r where
    g: "getSlots Undefined ?S = Inr r" and c: "children r = []"
    and s: "\<And>key v. (key, v) \<in> set ?S \<Longrightarrow> map_of (slots r) key = (if is_tuple v then Some (Arr []) else None)"
    by blast
  from s [of "''A''" "Component 1"] have a: "map_of (slots r) ''A'' = None" by simp
  from s [of "''B''" "Tuple 2"] have b: "map_of (slots r) ''B'' = Some (Arr [])" by simp
  from s [of "''C''" "Mapping 3 [(''x'', 4)]"] have cc: "map_of (slots r) ''C'' = None" by simp
  from g c a b cc show ?thesis by blast
qed

text \<open>
  Claim C8, as stated, fails: the code has no configuration error. A mapping with two keys
  is registered like any other value that is not an array, and the children are
  partitioned.
\<close>

theorem multi_key_mapping_counterexample:
  "getSlots (Arr [Element (TyComponent 1) 1 Undefined, Element (TyString ''div'') 2 Undefined])
            [(''Namespaced'', Mapping 7 [(''a'', 3), (''b'', 4)]), (''Title'', Component 1)]
     = Inr \<lparr>children = [Element (TyString ''div'') 2 Undefined],
            slots = [(''Title'', Element (TyComponent 1) 1 Undefined)]\<rparr>"
  by code_simp

text \<open>
  Claim C8, amended. For a schema with a mapping entry of more than one key,
  \<^verbatim>\<open>getSlots\<close> raises no configuration error and never reads what the mapping holds: its
  outcome is the same as with any other content \<open>es'\<close> of that mapping, a single key
  included. \<^verbatim>\<open>resolveChildSlot\<close> returns such a mapping unchanged.
\<close>

theorem multi_key_mapping_no_error:
  assumes "schema = pre @ [(key, Mapping obj es)] @ post" and "1 < length es"
  shows "getSlots ch schema = getSlots ch (pre @ [(key, Mapping obj es')] @ post) \<and>
         resolveChildSlot (Mapping obj es) = Mapping obj es"
proof -
  from assms(2) obtain e1 e2 rest where "es = e1 # e2 # rest"
    by (cases es; cases "tl es") auto
  then have "resolveChildSlot (Mapping obj es) = Mapping obj es" by simp
  moreover have "getSlots ch schema = getSlots ch (pre @ [(key, Mapping obj es')] @ post)"
    unfolding assms(1) by (rule getSlots_mapping_entries)
  ultimately show ?thesis by simp
qed

text \<open>
  C8 amended, at the schema of the counterexample, against the same mapping with one key.
\<close>

theorem multi_key_mapping_no_error_witness:
  "getSlots (Arr [Element (TyComponent 1) 1 Undefined, Element (TyString ''div'') 2 Undefined])
            [(''Namespaced'', Mapping 7 [(''a'', 3), (''b'', 4)]), (''Title'', Component 1)]
     = getSlots (Arr [Element (TyComponent 1) 1 Undefined, Element (TyString ''div'') 2 Undefined])
            [(''Namespaced'', Mapping 7 [(''a'', 3)]), (''Title'', Component 1)] \<and>
   resolveChildSlot (Mapping 7 [(''a'', 3), (''b'', 4)]) = Mapping 7 [(''a'', 3), (''b'', 4)]"
proof -
  let ?X = "Arr [Element (TyComponent 1) 1 Undefined, Element (TyString ''div'') 2 Undefined]"
  let ?S = "[(''Namespaced'', Mapping 7 [(''a'', 3), (''b'', 4)]), (''Title'', Component 1)]"
  have s: "?S = [] @ [(''Namespaced'', Mapping 7 [(''a'', 3), (''b'', 4)])] @ [(''Title'', Component 1)]"
    by simp
  have l: "1 < length [(''a'', 3::nat), (''b'', 4)]" by simp
  from multi_key_mapping_no_error [OF s l, of ?X "[(''a'', 3)]"]
  show ?thesis unfolding append.simps by blast
qed

text \<open>
  Claim C9 fails on the code. For the schema \<^verbatim>\<open>{ name: C }\<close> the table holds the resolved
  component under \<^verbatim>\<open>name\<close>, but \<^verbatim>\<open>Object.assign\<close> cannot set \<^verbatim>\<open>name\<close> on the function
  \<^verbatim>\<open>SlotProvider\<close>: \<^verbatim>\<open>withSlots\<close> raises a TypeError and returns no wrapped component, so
  nothing is attached.
\<close>

theorem withSlots_name_key_raises:
  "withSlots [(''name'', Component 1)] = Inl TypeError"
  by code_simp



section \<open>Further properties of resolveChildSlot and withSlots\<close>

text \<open>
  Property X1. \<^verbatim>\<open>resolveChildSlot\<close> returns the entry itself for a component, the sole
  element for a tuple, and the single nested value for a mapping with one key.
\<close>

theorem resolveChildSlot_cases:
  "resolveChildSlot (Component c) = Component c \<and>
   resolveChildSlot (Tuple c) = Component c \<and>
   resolveChildSlot (Mapping obj [(label, c)]) = Component c"
  by simp

text \<open>
  Property X2. For a schema none of whose keys is one a function cannot be assigned,
  \<^verbatim>\<open>withSlots\<close> returns, and the static property under each schema key is the resolved
  value of that key's entry.
\<close>

theorem withSlots_attaches:
  assumes "distinct (map fst schema)" and "fst ` set schema \<inter> set function_readonly_keys = {}"
  shows "\<exists>statics. withSlots schema = Inr statics \<and>
           (\<forall>key. map_of statics key = map_option resolveChildSlot (map_of schema key))"
proof -
  let ?es = "map (\<lambda>(key, val). (key, resolveChildSlot val)) schema"
  let ?upd = "\<lambda>(key, v). AList.update key v"
  have keys: "map fst ?es = map fst schema" by (induction schema) auto
  have d1: "distinct (map fst (Object_fromEntries ?es))"
    unfolding Object_fromEntries_def by (rule fold_update_distinct) simp
  have k1: "fst ` set (Object_fromEntries ?es) = fst ` set schema"
    unfolding Object_fromEntries_def fold_update_keys using keys by (metis empty_set image_empty list.set_map sup_bot_left)
  have m1: "map_of (Object_fromEntries ?es) key = map_option resolveChildSlot (map_of schema key)" for key
  proof -
    have "map_of (Object_fromEntries ?es) key = map_of (rev ?es) key"
      by (simp add: Object_fromEntries_def fold_update_map_of split: option.splits)
    also have "\<dots> = map_of ?es key"
      by (rule map_of_rev_distinct) (simp only: keys assms(1))
    also have "\<dots> = map_option resolveChildSlot (map_of schema key)"
      by (induction schema) auto
    finally show ?thesis .
  qed
  from assms(2) k1 have "fst ` set (Object_fromEntries ?es) \<inter> set function_readonly_keys = {}"
    by simp
  then have w: "withSlots schema = Inr (fold ?upd (Object_fromEntries ?es) [])"
    unfolding withSlots_def by (rule Object_assign_Inr)
  have "map_of (fold ?upd (Object_fromEntries ?es) []) key = map_option resolveChildSlot (map_of schema key)" for key
  proof -
    have "map_of (fold ?upd (Object_fromEntries ?es) []) key = map_of (rev (Object_fromEntries ?es)) key"
      by (simp add: fold_update_map_of split: option.splits)
    also have "\<dots> = map_of (Object_fromEntries ?es) key"
      by (rule map_of_rev_distinct) (rule d1)
    finally show ?thesis by (simp add: m1)
  qed
  with w show ?thesis by blast
qed

text \<open>X2 at a schema with one entry of each form.\<close>

theorem withSlots_attaches_witness:
  "\<exists>statics. withSlots [(''Title'', Component 1), (''Item'', Tuple 2), (''Group'', Mapping 3 [(''x'', 4)])]
                = Inr statics \<and>
      map_of statics ''Title'' = Some (Component 1) \<and>
      map_of statics ''Item'' = Some (Component 2) \<and>
      map_of statics ''Group'' = Some (Component 4)"
proof -
  let ?S = "[(''Title'', Component 1), (''Item'', Tuple 2), (''Group'', Mapping 3 [(''x'', 4)])]"
  have d: "distinct (map fst ?S)" by simp
  have k: "fst ` set ?S \<inter> set function_readonly_keys = {}"
    by (simp add: function_readonly_keys_def)
  from withSlots_attaches [OF d k] obtain statics where w: "withSlots ?S = Inr statics"
    and m: "\<And>key. map_of statics key = map_option resolveChildSlot (map_of ?S key)" by blast
  from m [of "''Title''"] have a: "map_of statics ''Title'' = Some (Component 1)" by simp
  from m [of "''Item''"] have b: "map_of statics ''Item'' = Some (Component 2)" by simp
  from m [of "''Group''"] have c: "map_of statics ''Group'' = Some (Component 4)" by simp
  from w a b c show ?thesis by blast
qed

end
